theory Spec2Isabelle
  imports Main "HOL-Library.AList"
begin

section \<open>Data model\<close>

text \<open>
  A shallow embedding of \<^verbatim>\<open>dbmigrator.py\<close>. \<^verbatim>\<open>DBRevision\<close> is the class of the same name;
  Python's \<^verbatim>\<open>Set[str]\<close> is a \<open>string set\<close>, \<^verbatim>\<open>Optional[str]\<close> a \<open>string option\<close>.
\<close>

record DBRevision =
  revision_name :: string
  dependencies :: "string set"
  sql_text :: "string option"
  active :: bool
  description :: "string option"

text \<open>\<^verbatim>\<open>DBRevision.yaml_template\<close>: no script, active, no description.\<close>

definition yaml_template :: "string \<Rightarrow> string set \<Rightarrow> DBRevision" where
  "yaml_template name deps =
     \<lparr>revision_name = name, dependencies = deps, sql_text = None, active = True,
      description = None\<rparr>"

text \<open>
  Errors raised by the database layer (SQLAlchemy and the driver below it), and the
  exceptions that leave the migrator's own methods.
\<close>

datatype db_error =
    NoSuchTableError
  | IntegrityError string
  | OperationalError string
  | ProgrammingError string
  | ObjectNotExecutableError

datatype error =
    DependenciesNotMet string "string set"
  | CouldNotResolve "string list"
  | KeyError
  | DBError db_error

text \<open>
  The target database. \<open>tracking\<close> holds the rows of the tracking table (one text column,
  the primary key, hence a set), and is \<open>None\<close> while the table does not exist.
  \<open>payload\<close> is every other piece of data in the database, left abstract. \<open>fault\<close> is an
  environmental failure (connectivity, permission): while it is set, every call to the
  database raises it.
\<close>

record 'd database =
  tracking :: "string set option"
  payload :: 'd
  fault :: "db_error option"

text \<open>The calls a migrator makes to the database, recorded in the order they are made.\<close>

datatype db_call =
    Connect
  | Reflect
  | Select
  | Begin
  | Execute "string option"
  | Insert string
  | Commit
  | Rollback

text \<open>
  The migrator object. \<open>migrations\<close> is the revisions directory: each file (by name) with
  the revision its YAML content parses to, in the order \<^verbatim>\<open>rglob\<close> yields them.
  \<open>applied_revisions\<close> is the in-memory set of the same name, \<open>psql_engine\<close> the durable
  (committed) state of the database behind the engine, \<open>calls\<close> the log of database calls.
\<close>

record 'd DBMigrator =
  migrations :: "(string \<times> DBRevision) list"
  applied_revisions :: "string set"
  psql_engine :: "'d database"
  calls :: "db_call list"

section \<open>Database primitives\<close>

definition connect :: "'d database \<Rightarrow> db_error + unit" where
  "connect d = (case fault d of Some e \<Rightarrow> Inl e | None \<Rightarrow> Inr ())"

text \<open>
  \<^verbatim>\<open>_get_table_reflection\<close>: the default argument of \<^verbatim>\<open>tables.get\<close> is evaluated on every
  call, so the table is always autoloaded from the database, which raises
  \<^verbatim>\<open>NoSuchTableError\<close> when the table is not there.
\<close>

definition get_table_reflection :: "'d database \<Rightarrow> db_error + unit" where
  "get_table_reflection d =
     (case fault d of
        Some e \<Rightarrow> Inl e
      | None \<Rightarrow> (case tracking d of None \<Rightarrow> Inl NoSuchTableError | Some rows \<Rightarrow> Inr ()))"


text \<open>
  \<^verbatim>\<open>migration_table.insert({revisions: name})\<close>: the primary key rejects a name that is
  already a row.
\<close>

definition insert_revision :: "string \<Rightarrow> 'd database \<Rightarrow> db_error + 'd database" where
  "insert_revision name d =
     (case fault d of
        Some e \<Rightarrow> Inl e
      | None \<Rightarrow>
          (case tracking d of
             None \<Rightarrow> Inl (ProgrammingError ''relation does not exist'')
           | Some rows \<Rightarrow>
               if name \<in> rows then Inl (IntegrityError name)
               else Inr (d\<lparr>tracking := Some (insert name rows)\<rparr>)))"

text \<open>
  \<^verbatim>\<open>_execute_query(sql_conn, revision.sql_text)\<close>. The script is opaque: what a text does
  to the database is the parameter \<open>exec\<close>. A revision without a script (\<^verbatim>\<open>None\<close>) is not
  executable.
\<close>

definition execute_script ::
  "(string \<Rightarrow> 'd database \<Rightarrow> db_error + 'd database) \<Rightarrow> string option \<Rightarrow> 'd database
     \<Rightarrow> db_error + 'd database" where
  "execute_script exec sql d =
     (case sql of None \<Rightarrow> Inl ObjectNotExecutableError | Some s \<Rightarrow> exec s d)"

definition log_call :: "db_call \<Rightarrow> 'd DBMigrator \<Rightarrow> 'd DBMigrator" where
  "log_call c m = m\<lparr>calls := calls m @ [c]\<rparr>"

text \<open>
  The transaction of \<^verbatim>\<open>with sql_conn.begin():\<close>. Statements run on a working copy of the
  database; leaving the block normally commits the working copy, leaving it by an
  exception rolls back, which discards it.
\<close>

definition commit :: "'d database \<Rightarrow> 'd DBMigrator \<Rightarrow> 'd DBMigrator" where
  "commit working m = log_call Commit (m\<lparr>psql_engine := working\<rparr>)"

definition rollback :: "'d DBMigrator \<Rightarrow> 'd DBMigrator" where
  "rollback m = log_call Rollback m"

section \<open>Reading the applied revisions\<close>



section \<open>Creating a revision file\<close>

text \<open>
  \<^verbatim>\<open>create_new_revision\<close>. The file \<^verbatim>\<open>migrations / f"{name}.yaml"\<close> is opened with mode
  \<^verbatim>\<open>"w"\<close>, which creates it or truncates the file that is there; the template is dumped
  into it.
\<close>

definition create_new_revision ::
  "'d DBMigrator \<Rightarrow> string \<Rightarrow> string set option \<Rightarrow> string option \<Rightarrow> DBRevision \<times> 'd DBMigrator" where
  "create_new_revision m name deps descr =
     (let deps' = (case deps of None \<Rightarrow> {} | Some ds \<Rightarrow> ds);
          revision_template = yaml_template name deps';
          revision_template' =
            (case descr of
               None \<Rightarrow> revision_template
             | Some txt \<Rightarrow> revision_template\<lparr>description := Some txt\<rparr>);
          revision_path = revision_name revision_template' @ ''.yaml''
      in (revision_template',
          m\<lparr>migrations := AList.update revision_path revision_template' (migrations m)\<rparr>))"

section \<open>Loading revisions\<close>

text \<open>
  \<^verbatim>\<open>load_revisions\<close>: a dict keyed by revision name holding the active revisions; a later
  file with the same name replaces the earlier entry (\<^verbatim>\<open>ret_revisions[name] = revision\<close>).
  Every file of the directory is taken to parse (\<open>migrations\<close> holds the parsed content).
  A Python dict keeps insertion order and has one entry per key: an association list
  maintained with \<open>AList.update\<close> and \<open>AList.delete\<close>.
\<close>

definition load_revisions :: "'d DBMigrator \<Rightarrow> (string \<times> DBRevision) list" where
  "load_revisions m =
     fold (\<lambda>revision ret_revisions.
             if active revision
             then AList.update (revision_name revision) revision ret_revisions
             else ret_revisions)
          (map snd (migrations m)) []"

section \<open>Applying a revision\<close>

text \<open>
  \<^verbatim>\<open>apply_revision\<close>. The result is the exception that left the method (\<open>None\<close> when it
  returned) and the migrator afterwards. The source adds the name to
  \<^verbatim>\<open>applied_revisions\<close> as the last statement inside the transaction block, and the block
  commits on leaving; the commit itself is taken to succeed.
\<close>

definition apply_revision ::
  "(string \<Rightarrow> 'd database \<Rightarrow> db_error + 'd database) \<Rightarrow> 'd DBMigrator \<Rightarrow> DBRevision
     \<Rightarrow> error option \<times> 'd DBMigrator" where
  "apply_revision exec m revision =
     (if dependencies revision \<noteq> {}
         \<and> \<not> dependencies revision \<subseteq> applied_revisions m
      then (Some (DependenciesNotMet (revision_name revision) (dependencies revision)), m)
      else
        (let m1 = log_call Reflect m in
         case get_table_reflection (psql_engine m) of
           Inl e \<Rightarrow> (Some (DBError e), m1)
         | Inr t \<Rightarrow>
             (let m2 = log_call Connect m1 in
              case connect (psql_engine m) of
                Inl e \<Rightarrow> (Some (DBError e), m2)
              | Inr u \<Rightarrow>
                  (let m3 = log_call Begin m2;
                       m4 = log_call (Execute (sql_text revision)) m3 in
                   case execute_script exec (sql_text revision) (psql_engine m) of
                     Inl e \<Rightarrow> (Some (DBError e), rollback m4)
                   | Inr working \<Rightarrow>
                       (let m5 = log_call (Insert (revision_name revision)) m4 in
                        case insert_revision (revision_name revision) working of
                          Inl e \<Rightarrow> (Some (DBError e), rollback m5)
                        | Inr working' \<Rightarrow>
                            (None,
                             commit working'
                               (m5\<lparr>applied_revisions :=
                                     insert (revision_name revision) (applied_revisions m5)\<rparr>)))))))"

section \<open>Building the dependency layers\<close>

text \<open>
  One pass of the \<^verbatim>\<open>for rev_name in revision_names\<close> loop: \<open>flat\<close> is
  \<^verbatim>\<open>flat_revision_layers\<close>, fixed during the pass; the pass carries \<^verbatim>\<open>new_layer\<close> and
  the dict \<^verbatim>\<open>revisions\<close>. \<^verbatim>\<open>revisions[rev_name]\<close> raises \<^verbatim>\<open>KeyError\<close> on a missing key.
\<close>

fun scan_revisions ::
  "string list \<Rightarrow> string set \<Rightarrow> string set \<times> (string \<times> DBRevision) list
     \<Rightarrow> error + string set \<times> (string \<times> DBRevision) list" where
  "scan_revisions [] flat (new_layer, revisions) = Inr (new_layer, revisions)"
| "scan_revisions (rev_name # names) flat (new_layer, revisions) =
     (case map_of revisions rev_name of
        None \<Rightarrow> Inl KeyError
      | Some r \<Rightarrow>
          if dependencies r \<subseteq> flat \<and> rev_name \<notin> flat
          then scan_revisions names flat
                 (insert rev_name new_layer, AList.delete rev_name revisions)
          else scan_revisions names flat (new_layer, revisions))"

text \<open>
  The \<^verbatim>\<open>while True\<close> loop. It stops when a pass adds nothing to the new layer, or when
  the dict is empty after a pass; it returns what is left of the dict with the layers.
\<close>

function build_layers_loop ::
  "(string \<times> DBRevision) list \<Rightarrow> string set \<Rightarrow> string set list
     \<Rightarrow> error + (string \<times> DBRevision) list \<times> string set list" where
  "build_layers_loop revisions flat revision_layers =
     (case scan_revisions (map fst revisions) flat ({}, revisions) of
        Inl e \<Rightarrow> Inl e
      | Inr (new_layer, revisions') \<Rightarrow>
          if new_layer = {} then Inr (revisions', revision_layers)
          else if revisions' = [] then Inr (revisions', revision_layers @ [new_layer])
          else build_layers_loop revisions' (flat \<union> new_layer)
                 (revision_layers @ [new_layer]))"
  by pat_completeness auto
termination
proof (relation "measure (\<lambda>(revisions, flat, revision_layers). length revisions)")
  show "wf (measure (\<lambda>(revisions, flat, revision_layers). length revisions))"
    by simp
next
  fix revisions :: "(string \<times> DBRevision) list"
    and flat revision_layers x2 new_layer revisions'
  assume scan: "scan_revisions (map fst revisions) flat ({}, revisions) = Inr x2"
    and x2: "(new_layer, revisions') = x2"
    and nonempty: "new_layer \<noteq> {}"
  have shrink: "length rs' \<le> length rs \<and> (nl' \<noteq> nl \<longrightarrow> length rs' < length rs)"
    if "scan_revisions names flat (nl, rs) = Inr (nl', rs')"
    for names nl nl' and rs rs' :: "(string \<times> DBRevision) list"
    using that
  proof (induction names arbitrary: nl rs)
    case Nil
    then show ?case by simp
  next
    case (Cons n names)
    show ?case
    proof (cases "map_of rs n")
      case None
      with Cons.prems show ?thesis by simp
    next
      case (Some r)
      then have mem: "(n, r) \<in> set rs"
        by (rule map_of_SomeD)
      have del: "length (AList.delete n rs) < length rs"
        unfolding AList.delete_eq using mem by (auto intro!: length_filter_less)
      show ?thesis
      proof (cases "dependencies r \<subseteq> flat \<and> n \<notin> flat")
        case True
        with Some Cons.prems
        have "scan_revisions names flat (insert n nl, AList.delete n rs) = Inr (nl', rs')"
          by simp
        from Cons.IH[OF this] del show ?thesis by auto
      next
        case False
        with Some Cons.prems
        have "scan_revisions names flat (nl, rs) = Inr (nl', rs')"
          by auto
        from Cons.IH[OF this] show ?thesis .
      qed
    qed
  qed
  from scan x2 nonempty shrink[of "map fst revisions" "{}" revisions new_layer revisions']
  show "((revisions', flat \<union> new_layer, revision_layers @ [new_layer]),
          revisions, flat, revision_layers)
        \<in> measure (\<lambda>(revisions, flat, revision_layers). length revisions)"
    by auto
qed

text \<open>
  \<^verbatim>\<open>build_revision_layers\<close>. Popping every applied name from the dict
  (\<^verbatim>\<open>revisions.pop(rev, None)\<close>) keeps the entries whose key is not applied.
\<close>

definition working_set :: "'d DBMigrator \<Rightarrow> (string \<times> DBRevision) list" where
  "working_set m = filter (\<lambda>(k, r). k \<notin> applied_revisions m) (load_revisions m)"

definition build_revision_layers :: "'d DBMigrator \<Rightarrow> bool \<Rightarrow> bool \<Rightarrow> error + string set list" where
  "build_revision_layers m require_all include_applied =
     (let revision_layers = (if include_applied then [applied_revisions m] else []);
          flat_revision_layers = {} \<union> applied_revisions m
      in case build_layers_loop (working_set m) flat_revision_layers revision_layers of
           Inl e \<Rightarrow> Inl e
         | Inr (revisions, revision_layers') \<Rightarrow>
             if require_all \<and> revisions \<noteq> []
             then Inl (CouldNotResolve (map fst revisions))
             else Inr revision_layers')"

section \<open>The dependency layers of one revision\<close>

text \<open>
  The \<^verbatim>\<open>for rev in revision_layers[-1]\<close> loop: the union of the dependencies of the
  layer's members, \<^verbatim>\<open>KeyError\<close> when a member is not a key of the dict.
\<close>

definition union_dependencies ::
  "(string \<times> DBRevision) list \<Rightarrow> string set \<Rightarrow> error + string set" where
  "union_dependencies revisions layer =
     (if \<forall>rev \<in> layer. map_of revisions rev \<noteq> None
      then Inr (\<Union>rev \<in> layer. dependencies (the (map_of revisions rev)))
      else Inl KeyError)"

text \<open>
  The \<^verbatim>\<open>while True\<close> loop of \<^verbatim>\<open>get_revision_dependencies\<close>. Nothing bounds it: the
  result is \<open>None\<close> when it runs forever.
\<close>

partial_function (option) dependencies_loop ::
  "(string \<times> DBRevision) list \<Rightarrow> string set list \<Rightarrow> (error + string set list) option" where
  "dependencies_loop revisions revision_layers =
     (case union_dependencies revisions (last revision_layers) of
        Inl e \<Rightarrow> Some (Inl e)
      | Inr new_layer \<Rightarrow>
          if new_layer = {} then Some (Inr revision_layers)
          else dependencies_loop revisions (revision_layers @ [new_layer]))"

definition get_revision_dependencies ::
  "'d DBMigrator \<Rightarrow> string \<Rightarrow> (error + string set list) option" where
  "get_revision_dependencies m name =
     map_option (map_sum id rev) (dependencies_loop (load_revisions m) [{name}])"

section \<open>Notions of the specification\<close>

text \<open>The names of a mapping of revisions.\<close>

definition revision_names :: "(string \<times> DBRevision) list \<Rightarrow> string set" where
  "revision_names revisions = fst ` set revisions"

text \<open>
  The dependency graph of a mapping: an edge from each revision to each of its
  dependencies. The mapping has no dependency cycle when this relation is acyclic.
\<close>

definition dependency_edges :: "(string \<times> DBRevision) list \<Rightarrow> (string \<times> string) set" where
  "dependency_edges revisions = (\<Union>(n, r) \<in> set revisions. Pair n ` dependencies r)"

text \<open>Every dependency is a revision of the mapping or is applied.\<close>

definition dependencies_known :: "(string \<times> DBRevision) list \<Rightarrow> string set \<Rightarrow> bool" where
  "dependencies_known revisions applied =
     (\<forall>(n, r) \<in> set revisions. dependencies r \<subseteq> revision_names revisions \<union> applied)"

text \<open>
  The ancestor layers as the specification describes them: layer \<open>0\<close> is the target alone,
  the next layer outward is the union of the dependencies of the current one.
\<close>

fun ancestor_layer :: "(string \<times> DBRevision) list \<Rightarrow> string \<Rightarrow> nat \<Rightarrow> string set" where
  "ancestor_layer revisions target 0 = {target}"
| "ancestor_layer revisions target (Suc k) =
     (\<Union>rev \<in> ancestor_layer revisions target k.
        case map_of revisions rev of None \<Rightarrow> {} | Some r \<Rightarrow> dependencies r)"



section \<open>Notions of the layering proofs\<close>

text \<open>
  The test of the inner loop on an entry of the dict: its dependencies are all in \<open>flat\<close>
  and its name is not.
\<close>

definition ready :: "string set \<Rightarrow> string \<times> DBRevision \<Rightarrow> bool" where
  "ready flat e = (dependencies (snd e) \<subseteq> flat \<and> fst e \<notin> flat)"

text \<open>
  A sequence of layers built on top of \<open>flat\<close>: each layer is non-empty, disjoint from
  what came before, and consists of revisions whose dependencies all came before.
\<close>

fun layered :: "(string \<times> DBRevision) list \<Rightarrow> string set \<Rightarrow> string set list \<Rightarrow> bool" where
  "layered revisions flat [] = True"
| "layered revisions flat (layer # layers) =
     (layer \<noteq> {} \<and> layer \<inter> flat = {}
      \<and> (\<forall>k \<in> layer. \<exists>e \<in> set revisions. fst e = k \<and> dependencies (snd e) \<subseteq> flat)
      \<and> layered revisions (flat \<union> layer) layers)"

section \<open>Example inputs\<close>

text \<open>
  The revisions of the specification's examples: \<open>A\<close> without dependencies, \<open>B\<close> and \<open>C\<close>
  on \<open>A\<close>, \<open>D\<close> on \<open>B\<close> and \<open>C\<close>; and the cycle of \<open>E\<close> and \<open>F\<close>.
\<close>

definition rev_a :: DBRevision where
  "rev_a = \<lparr>revision_name = ''A'', dependencies = {},
            sql_text = Some ''CREATE TABLE a (id INT)'', active = True, description = None\<rparr>"

definition rev_b :: DBRevision where
  "rev_b = \<lparr>revision_name = ''B'', dependencies = {''A''},
            sql_text = Some ''CREATE TABLE b (id INT)'', active = True, description = None\<rparr>"

definition rev_c :: DBRevision where
  "rev_c = \<lparr>revision_name = ''C'', dependencies = {''A''},
            sql_text = Some ''CREATE TABLE c (id INT)'', active = True, description = None\<rparr>"

definition rev_d :: DBRevision where
  "rev_d = \<lparr>revision_name = ''D'', dependencies = {''B'', ''C''},
            sql_text = Some ''CREATE TABLE d (id INT)'', active = True, description = None\<rparr>"



definition empty_db :: "unit database" where
  "empty_db = \<lparr>tracking = Some {}, payload = (), fault = None\<rparr>"

text \<open>A migrator over the four revisions, nothing applied.\<close>

definition fresh_migrator :: "unit DBMigrator" where
  "fresh_migrator =
     \<lparr>migrations = [(''A.yaml'', rev_a), (''B.yaml'', rev_b), (''C.yaml'', rev_c),
                    (''D.yaml'', rev_d)],
      applied_revisions = {}, psql_engine = empty_db, calls = []\<rparr>"

text \<open>The same with \<open>A\<close> applied, and with \<open>A\<close> and \<open>B\<close> applied.\<close>

definition migrator_with_a :: "unit DBMigrator" where
  "migrator_with_a =
     fresh_migrator\<lparr>applied_revisions := {''A''},
                    psql_engine := empty_db\<lparr>tracking := Some {''A''}\<rparr>\<rparr>"

definition migrator_with_ab :: "unit DBMigrator" where
  "migrator_with_ab =
     fresh_migrator\<lparr>applied_revisions := {''A'', ''B''},
                    psql_engine := empty_db\<lparr>tracking := Some {''A'', ''B''}\<rparr>\<rparr>"

text \<open>A directory that holds \<open>B\<close> alone: its dependency \<open>A\<close> is nowhere.\<close>

definition orphan_migrator :: "unit DBMigrator" where
  "orphan_migrator = fresh_migrator\<lparr>migrations := [(''B.yaml'', rev_b)]\<rparr>"




text \<open>A script that runs and changes nothing, and one that the database rejects.\<close>

definition script_ok :: "string \<Rightarrow> unit database \<Rightarrow> db_error + unit database" where
  "script_ok s d = Inr d"

definition script_fails :: "string \<Rightarrow> unit database \<Rightarrow> db_error + unit database" where
  "script_fails s d = Inl (ProgrammingError ''relation already exists'')"

section \<open>Applying a revision: the dependency guard\<close>



section \<open>Applying a revision: the transaction\<close>




section \<open>Applying a revision twice\<close>

text \<open>
  C6, as the claim states it: applying an applied revision again raises the
  duplicate-application error of the primary key. It fails when the script itself is
  rejected on the second run: \<open>B\<close> is applied, its dependency \<open>A\<close> is met, the script
  raises before the insert is attempted, and the exception is the script's.
\<close>

theorem apply_revision_again_counterexample:
  "revision_name rev_b \<in> applied_revisions migrator_with_ab
   \<and> tracking (psql_engine migrator_with_ab) = Some {''A'', ''B''}
   \<and> dependencies rev_b \<subseteq> applied_revisions migrator_with_ab
   \<and> fst (apply_revision script_fails migrator_with_ab rev_b)
       = Some (DBError (ProgrammingError ''relation already exists''))
   \<and> fst (apply_revision script_fails migrator_with_ab rev_b)
       \<noteq> Some (DBError (IntegrityError ''B''))
   \<and> Insert ''B'' \<notin> set (calls (snd (apply_revision script_fails migrator_with_ab rev_b)))"
  by (simp add: apply_revision_def rev_b_def migrator_with_ab_def fresh_migrator_def empty_db_def script_fails_def connect_def get_table_reflection_def insert_revision_def execute_script_def
        log_call_def commit_def rollback_def)

text \<open>
  C6, amended. For a revision whose dependencies are met and whose name is a row of the
  tracking table of a reachable database, \<open>apply_revision\<close> runs the script first. If the
  script is rejected, the call raises the script's error. If the script runs and the
  name is still a row of the tracking table, the insert violates the primary key and the
  call raises that integrity error. Whenever the call raises, the database and the
  applied set are unchanged.
\<close>

theorem apply_revision_again_fails:
  assumes "dependencies revision \<subseteq> applied_revisions m"
    and "fault (psql_engine m) = None"
    and "tracking (psql_engine m) = Some rows"
    and "revision_name revision \<in> rows"
  shows "(\<forall>e. execute_script exec (sql_text revision) (psql_engine m) = Inl e
            \<longrightarrow> fst (apply_revision exec m revision) = Some (DBError e))
       \<and> (\<forall>w rows'. execute_script exec (sql_text revision) (psql_engine m) = Inr w
                \<and> fault w = None \<and> tracking w = Some rows' \<and> revision_name revision \<in> rows'
            \<longrightarrow> fst (apply_revision exec m revision)
                  = Some (DBError (IntegrityError (revision_name revision))))
       \<and> (fst (apply_revision exec m revision) \<noteq> None \<longrightarrow>
            psql_engine (snd (apply_revision exec m revision)) = psql_engine m
          \<and> applied_revisions (snd (apply_revision exec m revision)) = applied_revisions m)"
  using assms
  by (auto simp: apply_revision_def Let_def connect_def get_table_reflection_def insert_revision_def execute_script_def
        log_call_def commit_def rollback_def split: sum.splits)

theorem apply_revision_again_fails_witness:
  "dependencies rev_b \<subseteq> applied_revisions migrator_with_ab
   \<and> fault (psql_engine migrator_with_ab) = None
   \<and> tracking (psql_engine migrator_with_ab) = Some {''A'', ''B''}
   \<and> revision_name rev_b \<in> {''A'', ''B''}
   \<and> execute_script script_ok (sql_text rev_b) (psql_engine migrator_with_ab)
       = Inr (psql_engine migrator_with_ab)
   \<and> fst (apply_revision script_ok migrator_with_ab rev_b)
       = Some (DBError (IntegrityError ''B''))
   \<and> execute_script script_fails (sql_text rev_b) (psql_engine migrator_with_ab)
       = Inl (ProgrammingError ''relation already exists'')
   \<and> fst (apply_revision script_fails migrator_with_ab rev_b)
       = Some (DBError (ProgrammingError ''relation already exists''))
   \<and> psql_engine (snd (apply_revision script_ok migrator_with_ab rev_b))
       = psql_engine migrator_with_ab
   \<and> applied_revisions (snd (apply_revision script_ok migrator_with_ab rev_b)) = {''A'', ''B''}"
proof -
  have h1: "dependencies rev_b \<subseteq> applied_revisions migrator_with_ab"
    by (simp add: rev_b_def migrator_with_ab_def fresh_migrator_def empty_db_def
        script_ok_def script_fails_def)
  have h2: "fault (psql_engine migrator_with_ab) = None"
    by (simp add: rev_b_def migrator_with_ab_def fresh_migrator_def empty_db_def
        script_ok_def script_fails_def)
  have h3: "tracking (psql_engine migrator_with_ab) = Some {''A'', ''B''}"
    by (simp add: rev_b_def migrator_with_ab_def fresh_migrator_def empty_db_def
        script_ok_def script_fails_def)
  have h4: "revision_name rev_b \<in> {''A'', ''B''}"
    by (simp add: rev_b_def migrator_with_ab_def fresh_migrator_def empty_db_def
        script_ok_def script_fails_def)
  have ok: "execute_script script_ok (sql_text rev_b) (psql_engine migrator_with_ab)
              = Inr (psql_engine migrator_with_ab)"
    by (simp add: rev_b_def migrator_with_ab_def fresh_migrator_def empty_db_def
        script_ok_def script_fails_def connect_def get_table_reflection_def insert_revision_def execute_script_def
        log_call_def commit_def rollback_def)
  have bad: "execute_script script_fails (sql_text rev_b) (psql_engine migrator_with_ab)
               = Inl (ProgrammingError ''relation already exists'')"
    by (simp add: rev_b_def migrator_with_ab_def fresh_migrator_def empty_db_def
        script_ok_def script_fails_def connect_def get_table_reflection_def insert_revision_def execute_script_def
        log_call_def commit_def rollback_def)
  note again_ok = apply_revision_again_fails[OF h1 h2 h3 h4, of script_ok]
  note again_bad = apply_revision_again_fails[OF h1 h2 h3 h4, of script_fails]
  have 1: "fst (apply_revision script_ok migrator_with_ab rev_b)
             = Some (DBError (IntegrityError ''B''))"
    using again_ok ok h2 h3 h4 by (auto simp: rev_b_def migrator_with_ab_def fresh_migrator_def empty_db_def
        script_ok_def script_fails_def)
  have 2: "fst (apply_revision script_fails migrator_with_ab rev_b)
             = Some (DBError (ProgrammingError ''relation already exists''))"
    using again_bad bad by blast
  have 3: "psql_engine (snd (apply_revision script_ok migrator_with_ab rev_b))
             = psql_engine migrator_with_ab
           \<and> applied_revisions (snd (apply_revision script_ok migrator_with_ab rev_b))
               = {''A'', ''B''}"
    using again_ok 1 by (simp add: rev_b_def migrator_with_ab_def fresh_migrator_def empty_db_def
        script_ok_def script_fails_def)
  from h1 h2 h3 h4 ok bad 1 2 3 show ?thesis by blast
qed

section \<open>Reading the applied revisions before setup\<close>



section \<open>Creating a revision over an existing file\<close>

text \<open>
  C7, as the claim states it: the creation fails when the file for that name exists. It
  does not: the directory holds \<^verbatim>\<open>A.yaml\<close> with the revision \<open>A\<close> and its script, the call
  for the name \<open>A\<close> returns the template, and the file now holds the template, which has
  no script.
\<close>

theorem create_new_revision_collision_counterexample:
  "map_of (migrations fresh_migrator) ''A.yaml'' = Some rev_a
   \<and> fst (create_new_revision fresh_migrator ''A'' None None) = yaml_template ''A'' {}
   \<and> map_of (migrations (snd (create_new_revision fresh_migrator ''A'' None None))) ''A.yaml''
       = Some (yaml_template ''A'' {})
   \<and> sql_text rev_a = Some ''CREATE TABLE a (id INT)''
   \<and> sql_text (yaml_template ''A'' {}) = None"
  by (simp add: create_new_revision_def yaml_template_def fresh_migrator_def rev_a_def Let_def)

text \<open>
  C7, amended. \<open>create_new_revision\<close> always returns the template for the name (no
  script, active, the given dependencies and description), and writes it to the file
  derived from the name whether or not that file exists: afterwards the file holds the
  template and every other file is as before.
\<close>

theorem create_new_revision_writes:
  "fst (create_new_revision m name deps descr)
     = \<lparr>revision_name = name, dependencies = (case deps of None \<Rightarrow> {} | Some ds \<Rightarrow> ds),
        sql_text = None, active = True, description = descr\<rparr>
   \<and> map_of (migrations (snd (create_new_revision m name deps descr)))
       = (map_of (migrations m))(name @ ''.yaml'' \<mapsto> fst (create_new_revision m name deps descr))"
  by (cases descr) (simp_all add: create_new_revision_def yaml_template_def Let_def update_conv')

section \<open>The dependency layers of one revision: the loop\<close>

text \<open>
  The loop of \<open>get_revision_dependencies\<close> walks the ancestor layers: with the layers
  \<open>0\<close> to \<open>k\<close> collected, it raises when layer \<open>k\<close> has a name outside the mapping,
  returns when the dependency union of layer \<open>k\<close> is empty, and goes on with layer
  \<open>k + 1\<close> otherwise.
\<close>

lemma map_of_None_iff_names: "map_of revisions n = None \<longleftrightarrow> n \<notin> revision_names revisions"
  by (simp add: revision_names_def map_of_eq_None_iff)

lemma union_dependencies_ancestor:
  assumes "ancestor_layer revisions target k \<subseteq> revision_names revisions"
  shows "union_dependencies revisions (ancestor_layer revisions target k)
         = Inr (ancestor_layer revisions target (Suc k))"
  supply ancestor_layer.simps(2) [simp del]
proof -
  have present: "\<forall>rev \<in> ancestor_layer revisions target k. map_of revisions rev \<noteq> None"
    using assms by (auto simp: map_of_None_iff_names)
  then have "(\<Union>rev \<in> ancestor_layer revisions target k. dependencies (the (map_of revisions rev)))
             = ancestor_layer revisions target (Suc k)"
    unfolding ancestor_layer.simps(2) by (intro SUP_cong) auto
  with present show ?thesis by (simp add: union_dependencies_def)
qed

lemma union_dependencies_missing:
  assumes "\<not> layer \<subseteq> revision_names revisions"
  shows "union_dependencies revisions layer = Inl KeyError"
  using assms by (auto simp: union_dependencies_def map_of_None_iff_names)

lemma dependencies_loop_step:
  "dependencies_loop revisions (map (ancestor_layer revisions target) [0..<Suc k]) =
     (if \<not> ancestor_layer revisions target k \<subseteq> revision_names revisions then Some (Inl KeyError)
      else if ancestor_layer revisions target (Suc k) = {}
      then Some (Inr (map (ancestor_layer revisions target) [0..<Suc k]))
      else dependencies_loop revisions (map (ancestor_layer revisions target) [0..<Suc (Suc k)]))"
  supply ancestor_layer.simps(2) [simp del]
proof -
  have l: "last (map (ancestor_layer revisions target) [0..<Suc k]) = ancestor_layer revisions target k"
    by simp
  show ?thesis
    apply (subst dependencies_loop.simps)
    apply (simp only: l)
    apply (cases "ancestor_layer revisions target k \<subseteq> revision_names revisions")
     apply (simp add: union_dependencies_ancestor)
    apply (simp add: union_dependencies_missing)
    done
qed

lemma dependencies_loop_advance:
  assumes "\<forall>j < k. ancestor_layer revisions target j \<subseteq> revision_names revisions
                 \<and> ancestor_layer revisions target (Suc j) \<noteq> {}"
  shows "dependencies_loop revisions [{target}]
         = dependencies_loop revisions (map (ancestor_layer revisions target) [0..<Suc k])"
  supply ancestor_layer.simps(2) [simp del]
  using assms
proof (induction k)
  case 0
  show ?case by simp
next
  case (Suc k)
  then have "dependencies_loop revisions [{target}]
             = dependencies_loop revisions (map (ancestor_layer revisions target) [0..<Suc k])"
    by simp
  also have "\<dots> = dependencies_loop revisions (map (ancestor_layer revisions target) [0..<Suc (Suc k)])"
    using Suc.prems by (subst dependencies_loop_step) simp
  finally show ?case .
qed

lemma ancestor_layer_empty_mono:
  "ancestor_layer revisions target j = {} \<Longrightarrow> j \<le> k \<Longrightarrow> ancestor_layer revisions target k = {}"
  supply ancestor_layer.simps(2) [simp del]
  by (induction k) (auto simp: le_Suc_eq ancestor_layer.simps(2))


lemma dependencies_loop_key_error:
  assumes "\<not> ancestor_layer revisions target k \<subseteq> revision_names revisions"
  shows "dependencies_loop revisions [{target}] = Some (Inl KeyError)"
  supply ancestor_layer.simps(2) [simp del]
proof -
  define k0 where "k0 = (LEAST j. \<not> ancestor_layer revisions target j \<subseteq> revision_names revisions)"
  have bad: "\<not> ancestor_layer revisions target k0 \<subseteq> revision_names revisions"
    unfolding k0_def using assms by (rule LeastI)
  have good: "ancestor_layer revisions target j \<subseteq> revision_names revisions" if "j < k0" for j
    using that not_less_Least unfolding k0_def by blast
  from bad have "ancestor_layer revisions target k0 \<noteq> {}" by auto
  then have ne: "ancestor_layer revisions target (Suc j) \<noteq> {}" if "j < k0" for j
    using that ancestor_layer_empty_mono[of revisions target "Suc j" k0] by auto
  have pre: "\<forall>j < k0. ancestor_layer revisions target j \<subseteq> revision_names revisions
                 \<and> ancestor_layer revisions target (Suc j) \<noteq> {}"
    using good ne by blast
  show ?thesis
    unfolding dependencies_loop_advance[OF pre]
    by (subst dependencies_loop_step) (use bad in simp)
qed


section \<open>The dependency layers of one revision: the result\<close>



section \<open>The dependency layers of one revision: names outside the mapping\<close>

text \<open>
  C10. When the target, or a name reached through the chain of dependency unions, is
  not a key of the loaded mapping of active revisions, \<open>get_revision_dependencies\<close>
  terminates with \<^verbatim>\<open>KeyError\<close> and returns no layering.
\<close>

theorem get_revision_dependencies_key_error:
  assumes "name \<in> ancestor_layer (load_revisions m) target k"
    and "name \<notin> revision_names (load_revisions m)"
  shows "get_revision_dependencies m target = Some (Inl KeyError)"
  supply ancestor_layer.simps(2) [simp del]
proof -
  from assms have "\<not> ancestor_layer (load_revisions m) target k \<subseteq> revision_names (load_revisions m)"
    by blast
  from dependencies_loop_key_error[OF this] show ?thesis
    by (simp add: get_revision_dependencies_def)
qed

theorem get_revision_dependencies_key_error_witness:
  "''A'' \<in> ancestor_layer (load_revisions orphan_migrator) ''B'' 1
   \<and> ''A'' \<notin> revision_names (load_revisions orphan_migrator)
   \<and> get_revision_dependencies orphan_migrator ''B'' = Some (Inl KeyError)
   \<and> ''Z'' \<in> ancestor_layer (load_revisions fresh_migrator) ''Z'' 0
   \<and> ''Z'' \<notin> revision_names (load_revisions fresh_migrator)
   \<and> get_revision_dependencies fresh_migrator ''Z'' = Some (Inl KeyError)"
proof -
  have reached: "''A'' \<in> ancestor_layer (load_revisions orphan_migrator) ''B'' 1"
    by code_simp
  have absent: "''A'' \<notin> revision_names (load_revisions orphan_migrator)"
    by code_simp
  have target: "''Z'' \<in> ancestor_layer (load_revisions fresh_migrator) ''Z'' 0"
    by simp
  have unknown: "''Z'' \<notin> revision_names (load_revisions fresh_migrator)"
    by code_simp
  from get_revision_dependencies_key_error[OF reached absent]
    get_revision_dependencies_key_error[OF target unknown]
    reached absent target unknown
  show ?thesis by blast
qed

section \<open>Building the dependency layers: one pass and the loop\<close>

text \<open>
  The dict of \<open>load_revisions\<close> has one entry per name. On such a dict a pass moves
  exactly the ready entries into the new layer and never meets a missing key.
\<close>

lemma distinct_load_revisions: "distinct (map fst (load_revisions m))"
proof -
  have "distinct (map fst acc) \<Longrightarrow>
        distinct (map fst (fold (\<lambda>revision ret_revisions.
             if active revision
             then AList.update (revision_name revision) revision ret_revisions
             else ret_revisions) rs acc))" for rs and acc :: "(string \<times> DBRevision) list"
    by (induction rs arbitrary: acc) (auto simp: distinct_update)
  then show ?thesis by (simp add: load_revisions_def)
qed

lemma distinct_working_set: "distinct (map fst (working_set m))"
  unfolding working_set_def by (intro distinct_map_filter distinct_load_revisions)

lemma scan_revisions_result:
  assumes "distinct (map fst revisions)" and "distinct names"
    and "set names \<subseteq> fst ` set revisions"
  shows "scan_revisions names flat (new_layer, revisions)
         = Inr (new_layer \<union> fst ` {e \<in> set revisions. fst e \<in> set names \<and> ready flat e},
                filter (\<lambda>e. \<not> (fst e \<in> set names \<and> ready flat e)) revisions)"
  using assms
proof (induction names arbitrary: new_layer revisions)
  case Nil
  then show ?case by simp
next
  case (Cons n names)
  from Cons.prems obtain r where mem: "(n, r) \<in> set revisions"
    by auto
  with Cons.prems have look: "map_of revisions n = Some r"
    by simp
  have uniq: "e = (n, r)" if "e \<in> set revisions" "fst e = n" for e
    using that mem Cons.prems(1) by (metis eq_key_imp_eq_value prod.collapse)
  show ?case
  proof (cases "ready flat (n, r)")
    case True
    have d: "distinct (map fst (AList.delete n revisions))"
      using Cons.prems(1) by (rule distinct_delete)
    have s: "set names \<subseteq> fst ` set (AList.delete n revisions)"
      using Cons.prems(2,3) by (force simp: AList.delete_eq)
    have dn: "distinct names" using Cons.prems(2) by simp
    have nn: "n \<notin> set names" using Cons.prems(2) by simp
    have step: "scan_revisions (n # names) flat (new_layer, revisions)
                = scan_revisions names flat (insert n new_layer, AList.delete n revisions)"
      using look True by (simp add: ready_def)
    have sets: "insert n new_layer \<union> fst ` {e \<in> set (AList.delete n revisions). fst e \<in> set names \<and> ready flat e}
                = new_layer \<union> fst ` {e \<in> set revisions. fst e \<in> set (n # names) \<and> ready flat e}"
      using mem True nn by (force simp: AList.delete_eq)
    have lists: "filter (\<lambda>e. \<not> (fst e \<in> set names \<and> ready flat e)) (AList.delete n revisions)
                 = filter (\<lambda>e. \<not> (fst e \<in> set (n # names) \<and> ready flat e)) revisions"
      unfolding AList.delete_eq filter_filter
      using True uniq by (intro filter_cong) (auto split: prod.splits)
    show ?thesis
      unfolding step Cons.IH[OF d dn s] sets lists ..
  next
    case False
    have s: "set names \<subseteq> fst ` set revisions" using Cons.prems(3) by simp
    have dn: "distinct names" using Cons.prems(2) by simp
    have step: "scan_revisions (n # names) flat (new_layer, revisions)
                = scan_revisions names flat (new_layer, revisions)"
      using look False by (auto simp: ready_def)
    have sets: "{e \<in> set revisions. fst e \<in> set names \<and> ready flat e}
                = {e \<in> set revisions. fst e \<in> set (n # names) \<and> ready flat e}"
      using False uniq by auto
    have lists: "filter (\<lambda>e. \<not> (fst e \<in> set names \<and> ready flat e)) revisions
                 = filter (\<lambda>e. \<not> (fst e \<in> set (n # names) \<and> ready flat e)) revisions"
      using False uniq by (intro filter_cong) auto
    show ?thesis
      unfolding step Cons.IH[OF Cons.prems(1) dn s] sets lists ..
  qed
qed

lemma scan_revisions_pass:
  assumes "distinct (map fst revisions)"
  shows "scan_revisions (map fst revisions) flat ({}, revisions)
         = Inr (fst ` {e \<in> set revisions. ready flat e}, filter (\<lambda>e. \<not> ready flat e) revisions)"
proof -
  have sets: "{e \<in> set revisions. fst e \<in> set (map fst revisions) \<and> ready flat e} = {e \<in> set revisions. ready flat e}"
    by auto
  have lists: "filter (\<lambda>e. \<not> (fst e \<in> set (map fst revisions) \<and> ready flat e)) revisions
               = filter (\<lambda>e. \<not> ready flat e) revisions"
    by (intro filter_cong) auto
  show ?thesis
    using scan_revisions_result[OF assms assms, of flat "{}"] sets lists by simp
qed

lemma layered_mono:
  "layered revisions' flat layers \<Longrightarrow> set revisions' \<subseteq> set revisions
   \<Longrightarrow> layered revisions flat layers"
proof (induction layers arbitrary: flat)
  case Nil
  show ?case by simp
next
  case (Cons layer layers)
  from Cons.prems have "\<forall>k \<in> layer. \<exists>e \<in> set revisions. fst e = k \<and> dependencies (snd e) \<subseteq> flat"
    by (simp, blast)
  with Cons show ?case by simp
qed

lemma keys_filter_not_ready:
  assumes "distinct (map fst revisions)"
  shows "fst ` set (filter (\<lambda>e. \<not> ready flat e) revisions)
         = fst ` set revisions - fst ` {e \<in> set revisions. ready flat e}"
proof -
  have "e = e'" if "e \<in> set revisions" "e' \<in> set revisions" "fst e = fst e'" for e e'
    using that assms by (metis eq_key_imp_eq_value prod.collapse)
  then show ?thesis by auto
qed

lemma build_layers_loop_result:
  assumes "distinct (map fst revisions)"
  shows "\<exists>rest new.
           build_layers_loop revisions flat revision_layers = Inr (rest, revision_layers @ new)
         \<and> layered revisions flat new
         \<and> distinct (map fst rest)
         \<and> set rest \<subseteq> set revisions
         \<and> fst ` set rest = fst ` set revisions - \<Union>(set new)
         \<and> (\<forall>e \<in> set rest. \<not> ready (flat \<union> \<Union>(set new)) e)"
  using assms
proof (induction revisions flat revision_layers rule: build_layers_loop.induct)
  case (1 revisions flat revision_layers)
  define new_layer where "new_layer = fst ` {e \<in> set revisions. ready flat e}"
  define revisions' where "revisions' = filter (\<lambda>e. \<not> ready flat e) revisions"
  have pass: "scan_revisions (map fst revisions) flat ({}, revisions) = Inr (new_layer, revisions')"
    unfolding new_layer_def revisions'_def using "1.prems" by (rule scan_revisions_pass)
  have d': "distinct (map fst revisions')"
    unfolding revisions'_def using "1.prems" by (rule distinct_map_filter)
  have sub': "set revisions' \<subseteq> set revisions"
    unfolding revisions'_def by auto
  have keys': "fst ` set revisions' = fst ` set revisions - new_layer"
    unfolding revisions'_def new_layer_def using "1.prems" by (rule keys_filter_not_ready)
  have first: "layered revisions flat [new_layer]" if "new_layer \<noteq> {}"
    using that unfolding new_layer_def by (force simp: ready_def)
  show ?case
  proof (cases "new_layer = {}")
    case True
    then have all: "\<forall>e \<in> set revisions. \<not> ready flat e"
      unfolding new_layer_def by auto
    then have same: "revisions' = revisions"
      unfolding revisions'_def by simp
    have "build_layers_loop revisions flat revision_layers = Inr (revisions, revision_layers @ [])"
      using pass True same by simp
    with all "1.prems" show ?thesis
      by (intro exI[of _ revisions] exI[of _ "[]"]) simp
  next
    case False
    show ?thesis
    proof (cases "revisions' = []")
      case True
      have "build_layers_loop revisions flat revision_layers = Inr ([], revision_layers @ [new_layer])"
        using pass False True by simp
      moreover have "fst ` set revisions - new_layer = {}"
        using keys' True by simp
      ultimately show ?thesis
        using first[OF False] by (intro exI[of _ "[]"] exI[of _ "[new_layer]"]) simp
    next
      case nonempty: False
      from "1.IH"[OF pass refl False nonempty d']
      obtain rest new where
        res: "build_layers_loop revisions' (flat \<union> new_layer) (revision_layers @ [new_layer])
              = Inr (rest, (revision_layers @ [new_layer]) @ new)"
        and lay: "layered revisions' (flat \<union> new_layer) new"
        and dr: "distinct (map fst rest)"
        and sr: "set rest \<subseteq> set revisions'"
        and kr: "fst ` set rest = fst ` set revisions' - \<Union>(set new)"
        and stuck: "\<forall>e \<in> set rest. \<not> ready ((flat \<union> new_layer) \<union> \<Union>(set new)) e"
        by blast
      have "build_layers_loop revisions flat revision_layers
            = Inr (rest, revision_layers @ (new_layer # new))"
        using pass False nonempty res by simp
      moreover have "layered revisions flat (new_layer # new)"
        using first[OF False] layered_mono[OF lay sub'] by simp
      moreover have "fst ` set rest = fst ` set revisions - \<Union>(set (new_layer # new))"
        using kr keys' by auto
      moreover have "\<forall>e \<in> set rest. \<not> ready (flat \<union> \<Union>(set (new_layer # new))) e"
        using stuck by (simp add: Un_assoc)
      ultimately show ?thesis
        using dr sr sub' by (intro exI[of _ rest] exI[of _ "new_layer # new"]) auto
    qed
  qed
qed

lemma layered_disjoint:
  "layered revisions flat layers \<Longrightarrow> layer \<in> set layers \<Longrightarrow> layer \<inter> flat = {}"
proof (induction layers arbitrary: flat)
  case Nil
  then show ?case by simp
next
  case (Cons l layers)
  show ?case
  proof (cases "layer = l")
    case True
    with Cons.prems show ?thesis by simp
  next
    case False
    with Cons.prems have "layer \<in> set layers" and "layered revisions (flat \<union> l) layers"
      by simp_all
    from Cons.IH[OF this(2) this(1)] show ?thesis by blast
  qed
qed

lemma layered_nth:
  "layered revisions flat layers \<Longrightarrow> i < length layers \<Longrightarrow> k \<in> layers ! i \<Longrightarrow>
     k \<notin> flat \<union> \<Union>(set (take i layers))
     \<and> (\<exists>e \<in> set revisions. fst e = k
            \<and> dependencies (snd e) \<subseteq> flat \<union> \<Union>(set (take i layers)))"
proof (induction layers arbitrary: flat i)
  case Nil
  then show ?case by simp
next
  case (Cons l layers)
  show ?case
  proof (cases i)
    case 0
    with Cons.prems show ?thesis by auto
  next
    case (Suc i')
    with Cons.prems have "layered revisions (flat \<union> l) layers" "i' < length layers" "k \<in> layers ! i'"
      by simp_all
    from Cons.IH[OF this] Suc show ?thesis by (simp add: Un_assoc)
  qed
qed

text \<open>
  The loop as \<open>build_revision_layers\<close> calls it: what is left of the dict, and the new
  layers after the initial ones.
\<close>

lemma build_revision_layers_loop:
  "\<exists>rest new.
     build_layers_loop (working_set m) ({} \<union> applied_revisions m) initial = Inr (rest, initial @ new)
   \<and> layered (working_set m) (applied_revisions m) new
   \<and> distinct (map fst rest)
   \<and> set rest \<subseteq> set (load_revisions m)
   \<and> fst ` set rest = revision_names (load_revisions m) - applied_revisions m - \<Union>(set new)
   \<and> (\<forall>e \<in> set rest. \<not> dependencies (snd e) \<subseteq> applied_revisions m \<union> \<Union>(set new))"
proof -
  from build_layers_loop_result[OF distinct_working_set, of m "applied_revisions m" initial]
  obtain rest new where
    res: "build_layers_loop (working_set m) (applied_revisions m) initial = Inr (rest, initial @ new)"
    and lay: "layered (working_set m) (applied_revisions m) new"
    and dr: "distinct (map fst rest)"
    and sr: "set rest \<subseteq> set (working_set m)"
    and kr: "fst ` set rest = fst ` set (working_set m) - \<Union>(set new)"
    and stuck: "\<forall>e \<in> set rest. \<not> ready (applied_revisions m \<union> \<Union>(set new)) e"
    by blast
  have kw: "fst ` set (working_set m) = revision_names (load_revisions m) - applied_revisions m"
    by (force simp: working_set_def revision_names_def)
  have "fst e \<notin> applied_revisions m \<union> \<Union>(set new)" if "e \<in> set rest" for e
  proof -
    from that have "fst e \<in> fst ` set rest" by (rule imageI)
    then have "fst e \<in> revision_names (load_revisions m) - applied_revisions m - \<Union>(set new)"
      unfolding kr kw .
    then show ?thesis by blast
  qed
  with stuck have "\<forall>e \<in> set rest. \<not> dependencies (snd e) \<subseteq> applied_revisions m \<union> \<Union>(set new)"
    by (simp add: ready_def)
  moreover have "set rest \<subseteq> set (load_revisions m)"
    using sr by (auto simp: working_set_def)
  ultimately show ?thesis
    using res lay dr kr kw by (intro exI[of _ rest] exI[of _ new]) simp
qed

lemma no_rest:
  assumes acyc: "acyclic (dependency_edges revisions)"
    and known: "dependencies_known revisions applied"
    and sub: "set rest \<subseteq> set revisions"
    and keys: "fst ` set rest = revision_names revisions - applied - done"
    and stuck: "\<forall>e \<in> set rest. \<not> dependencies (snd e) \<subseteq> applied \<union> done"
  shows "rest = []"
proof (rule ccontr)
  assume ne: "rest \<noteq> []"
  define Q where "Q = fst ` set rest"
  define R where "R = {(a, b) \<in> dependency_edges revisions. a \<in> Q \<and> b \<in> Q}"
  have "R \<subseteq> Q \<times> Q" unfolding R_def by auto
  moreover have "finite (Q \<times> Q)" unfolding Q_def by simp
  ultimately have fin: "finite R" by (rule finite_subset)
  have "R \<subseteq> dependency_edges revisions" unfolding R_def by auto
  with acyc have "acyclic R" by (rule acyclic_subset)
  with fin have wf: "wf (R\<inverse>)" by (rule finite_acyclic_wf_converse)
  from ne have "\<exists>z. z \<in> Q" unfolding Q_def by (cases rest) auto
  then obtain z where zQ: "z \<in> Q" and min: "\<And>y. (y, z) \<in> R\<inverse> \<Longrightarrow> y \<notin> Q"
    using wf by (metis wfE_min)
  from zQ obtain e where e: "e \<in> set rest" "fst e = z"
    unfolding Q_def by auto
  with sub have er: "(z, snd e) \<in> set revisions" by auto
  have "d \<in> applied \<union> done" if d: "d \<in> dependencies (snd e)" for d
  proof -
    from er d have edge: "(z, d) \<in> dependency_edges revisions"
      unfolding dependency_edges_def by force
    have "d \<notin> Q"
    proof
      assume "d \<in> Q"
      with edge zQ have "(d, z) \<in> R\<inverse>" unfolding R_def by simp
      from min[OF this] \<open>d \<in> Q\<close> show False by simp
    qed
    moreover from known er d have "d \<in> revision_names revisions \<union> applied"
      unfolding dependencies_known_def by force
    ultimately show ?thesis using keys unfolding Q_def by blast
  qed
  with stuck e show False by blast
qed

lemma entry_unique:
  "distinct (map fst revisions) \<Longrightarrow> e \<in> set revisions \<Longrightarrow> (fst e, r) \<in> set revisions \<Longrightarrow> snd e = r"
  by (metis eq_key_imp_eq_value prod.collapse)

lemma prepend_layer:
  assumes out: "k \<notin> S"
    and one: "\<exists>!i. i < length L \<and> k \<in> L ! i"
    and deps: "\<forall>i < length L. k \<in> L ! i \<longrightarrow> (\<forall>d \<in> D. d \<in> S \<or> (\<exists>j < i. d \<in> L ! j))"
  shows "(\<exists>!i. i < length (S # L) \<and> k \<in> (S # L) ! i)
       \<and> (\<forall>i < length (S # L). k \<in> (S # L) ! i
            \<longrightarrow> (\<forall>d \<in> D. d \<in> S \<or> (\<exists>j < i. d \<in> (S # L) ! j)))"
proof (intro conjI allI impI ballI)
  from one obtain i0 where i0: "i0 < length L" "k \<in> L ! i0"
    and only: "\<And>i. i < length L \<Longrightarrow> k \<in> L ! i \<Longrightarrow> i = i0"
    by blast
  show "\<exists>!i. i < length (S # L) \<and> k \<in> (S # L) ! i"
  proof (rule ex1I[of _ "Suc i0"])
    show "Suc i0 < length (S # L) \<and> k \<in> (S # L) ! Suc i0"
      using i0 by simp
  next
    fix i assume i: "i < length (S # L) \<and> k \<in> (S # L) ! i"
    with out obtain i' where "i = Suc i'"
      by (cases i) auto
    with i only[of i'] show "i = Suc i0" by simp
  qed
next
  fix i d
  assume i: "i < length (S # L)" "k \<in> (S # L) ! i" and d: "d \<in> D"
  with out obtain i' where i': "i = Suc i'"
    by (cases i) auto
  with i deps d have "d \<in> S \<or> (\<exists>j < i'. d \<in> L ! j)"
    by simp
  then show "d \<in> S \<or> (\<exists>j < i. d \<in> (S # L) ! j)"
  proof
    assume "d \<in> S"
    then show ?thesis ..
  next
    assume "\<exists>j < i'. d \<in> L ! j"
    then obtain j where "j < i'" "d \<in> L ! j" by blast
    then have "Suc j < i \<and> d \<in> (S # L) ! Suc j" using i' by simp
    then show ?thesis by blast
  qed
qed

section \<open>Building the dependency layers: applied revisions\<close>

text \<open>
  C5. When \<open>include_applied\<close> is true and the call returns, the first output layer is
  the applied set. Whatever the flag, the working set is the loaded mapping without the
  applied names, and no layer of the output after the optional applied layer shares a
  name with the applied set.
\<close>

theorem build_revision_layers_applied:
  "(build_revision_layers m require_all True = Inr layers
      \<longrightarrow> layers \<noteq> [] \<and> layers ! 0 = applied_revisions m)
   \<and> revision_names (working_set m) = revision_names (load_revisions m) - applied_revisions m
   \<and> (build_revision_layers m require_all include_applied = Inr layers
      \<longrightarrow> (\<forall>i < length layers. (include_applied \<longrightarrow> 0 < i)
             \<longrightarrow> layers ! i \<inter> applied_revisions m = {}))"
proof (intro conjI impI allI)
  assume ret: "build_revision_layers m require_all True = Inr layers"
  from build_revision_layers_loop[of m "[applied_revisions m]"]
  obtain rest new where
    "build_layers_loop (working_set m) ({} \<union> applied_revisions m) [applied_revisions m]
     = Inr (rest, [applied_revisions m] @ new)"
    by blast
  with ret have "layers = applied_revisions m # new"
    by (simp add: build_revision_layers_def split: if_splits)
  then show "layers \<noteq> []" and "layers ! 0 = applied_revisions m"
    by simp_all
next
  show "revision_names (working_set m) = revision_names (load_revisions m) - applied_revisions m"
    by (force simp: working_set_def revision_names_def)
next
  fix i
  assume ret: "build_revision_layers m require_all include_applied = Inr layers"
    and i: "i < length layers" and pos: "include_applied \<longrightarrow> 0 < i"
  define initial where "initial = (if include_applied then [applied_revisions m] else [])"
  from build_revision_layers_loop[of m initial]
  obtain rest new where
    res: "build_layers_loop (working_set m) ({} \<union> applied_revisions m) initial
          = Inr (rest, initial @ new)"
    and lay: "layered (working_set m) (applied_revisions m) new"
    by blast
  from ret res have layers: "layers = initial @ new"
    by (simp add: build_revision_layers_def initial_def split: if_splits)
  have "layers ! i \<in> set new"
  proof (cases include_applied)
    case True
    with pos obtain i' where "i = Suc i'" by (cases i) auto
    with i layers True show ?thesis by (simp add: initial_def)
  next
    case False
    with i layers show ?thesis by (simp add: initial_def)
  qed
  with lay show "layers ! i \<inter> applied_revisions m = {}"
    by (rule layered_disjoint)
qed

theorem build_revision_layers_applied_witness:
  "build_revision_layers migrator_with_a True True = Inr [{''A''}, {''B'', ''C''}, {''D''}]
   \<and> [{''A''}, {''B'', ''C''}, {''D''}] ! 0 = applied_revisions migrator_with_a
   \<and> [{''A''}, {''B'', ''C''}, {''D''}] ! 1 \<inter> applied_revisions migrator_with_a = {}
   \<and> [{''A''}, {''B'', ''C''}, {''D''}] ! 2 \<inter> applied_revisions migrator_with_a = {}
   \<and> revision_names (working_set migrator_with_a) = {''B'', ''C'', ''D''}"
proof -
  have run: "build_revision_layers migrator_with_a True True
               = Inr [{''A''}, {''B'', ''C''}, {''D''}]"
    by code_simp
  have names: "revision_names (load_revisions migrator_with_a) - applied_revisions migrator_with_a
               = {''B'', ''C'', ''D''}"
    by code_simp
  note inst = build_revision_layers_applied
                [of migrator_with_a True "[{''A''}, {''B'', ''C''}, {''D''}]" True]
  from inst run have first: "[{''A''}, {''B'', ''C''}, {''D''}] ! 0 = applied_revisions migrator_with_a"
    by blast
  from inst run
  have rest: "\<forall>i < length [{''A''}, {''B'', ''C''}, {''D''}]. 0 < i
                \<longrightarrow> [{''A''}, {''B'', ''C''}, {''D''}] ! i \<inter> applied_revisions migrator_with_a = {}"
    by blast
  have "(1::nat) < length [{''A''}, {''B'', ''C''}, {''D''}]"
    and "(2::nat) < length [{''A''}, {''B'', ''C''}, {''D''}]"
    by simp_all
  with rest have second: "[{''A''}, {''B'', ''C''}, {''D''}] ! 1 \<inter> applied_revisions migrator_with_a = {}"
    and third: "[{''A''}, {''B'', ''C''}, {''D''}] ! 2 \<inter> applied_revisions migrator_with_a = {}"
    by (metis zero_less_one, metis zero_less_numeral)
  from inst names have "revision_names (working_set migrator_with_a) = {''B'', ''C'', ''D''}"
    by simp
  with run first second third show ?thesis by blast
qed

section \<open>Building the dependency layers: unresolved revisions\<close>



section \<open>Building the dependency layers: completeness\<close>

text \<open>
  C2, as the claim states it: without dependency cycles every revision that is not
  applied lands in a layer. It fails when a dependency is missing: \<open>B\<close> depends on \<open>A\<close>,
  which is neither in the mapping nor applied; the mapping has no cycle, yet \<open>B\<close> is in
  no layer, and with \<open>require_all\<close> the call raises.
\<close>

theorem build_revision_layers_complete_counterexample:
  "acyclic (dependency_edges (load_revisions orphan_migrator))
   \<and> (''B'', rev_b) \<in> set (load_revisions orphan_migrator)
   \<and> ''B'' \<notin> applied_revisions orphan_migrator
   \<and> build_revision_layers orphan_migrator False False = Inr []
   \<and> build_revision_layers orphan_migrator True False = Inl (CouldNotResolve [''B''])"
  by code_simp

text \<open>
  C2, amended. For a mapping without dependency cycles in which every dependency is a
  revision of the mapping or is applied, \<open>build_revision_layers\<close> terminates and returns
  a layering (it does not raise, whatever the flags); every revision of the mapping that
  is not applied is in exactly one layer, and each of its dependencies is applied or in
  a strictly earlier layer.
\<close>

theorem build_revision_layers_complete:
  assumes acyc: "acyclic (dependency_edges (load_revisions m))"
    and known: "dependencies_known (load_revisions m) (applied_revisions m)"
  shows "\<exists>layers.
           build_revision_layers m require_all include_applied = Inr layers
         \<and> (\<forall>(k, r) \<in> set (load_revisions m). k \<notin> applied_revisions m \<longrightarrow>
              (\<exists>!i. i < length layers \<and> k \<in> layers ! i)
            \<and> (\<forall>i < length layers. k \<in> layers ! i \<longrightarrow>
                 (\<forall>d \<in> dependencies r.
                    d \<in> applied_revisions m \<or> (\<exists>j < i. d \<in> layers ! j))))"
proof -
  define initial where "initial = (if include_applied then [applied_revisions m] else [])"
  from build_revision_layers_loop[of m initial]
  obtain rest new where
    res: "build_layers_loop (working_set m) ({} \<union> applied_revisions m) initial
          = Inr (rest, initial @ new)"
    and lay: "layered (working_set m) (applied_revisions m) new"
    and sr: "set rest \<subseteq> set (load_revisions m)"
    and kr: "fst ` set rest
             = revision_names (load_revisions m) - applied_revisions m - \<Union>(set new)"
    and stuck: "\<forall>e \<in> set rest. \<not> dependencies (snd e) \<subseteq> applied_revisions m \<union> \<Union>(set new)"
    by blast
  from no_rest[OF acyc known sr kr stuck] have empty: "rest = []" .
  with res have ret: "build_revision_layers m require_all include_applied = Inr (initial @ new)"
    by (simp add: build_revision_layers_def initial_def)
  have todo: "(\<exists>!i. i < length new \<and> k \<in> new ! i)
            \<and> (\<forall>i < length new. k \<in> new ! i \<longrightarrow>
                 (\<forall>d \<in> dependencies r. d \<in> applied_revisions m \<or> (\<exists>j < i. d \<in> new ! j)))"
    if kr': "(k, r) \<in> set (load_revisions m)" and un: "k \<notin> applied_revisions m" for k r
  proof (intro conjI allI impI ballI)
    from kr' have "k \<in> revision_names (load_revisions m)"
      by (force simp: revision_names_def)
    with un kr empty have "k \<in> \<Union>(set new)" by auto
    then obtain i0 where i0: "i0 < length new" "k \<in> new ! i0"
      by (auto simp: in_set_conv_nth)
    have "i = j" if "i < length new" "k \<in> new ! i" "j < length new" "k \<in> new ! j" for i j
    proof (rule ccontr)
      assume "i \<noteq> j"
      then consider "i < j" | "j < i" by linarith
      then show False
      proof cases
        case 1
        from layered_nth[OF lay that(3,4)] have "k \<notin> \<Union>(set (take j new))" by simp
        moreover have "new ! i \<in> set (take j new)"
          using 1 that(3) by (auto simp: in_set_conv_nth intro!: exI[of _ i])
        ultimately show False using that(2) by blast
      next
        case 2
        from layered_nth[OF lay that(1,2)] have "k \<notin> \<Union>(set (take i new))" by simp
        moreover have "new ! j \<in> set (take i new)"
          using 2 that(1) by (auto simp: in_set_conv_nth intro!: exI[of _ j])
        ultimately show False using that(4) by blast
      qed
    qed
    with i0 show "\<exists>!i. i < length new \<and> k \<in> new ! i" by blast
  next
    fix i d
    assume i: "i < length new" "k \<in> new ! i" and d: "d \<in> dependencies r"
    from layered_nth[OF lay i] obtain e where e: "e \<in> set (working_set m)" "fst e = k"
      and sub: "dependencies (snd e) \<subseteq> applied_revisions m \<union> \<Union>(set (take i new))"
      by blast
    from e(1) have "e \<in> set (load_revisions m)" by (simp add: working_set_def)
    with e(2) kr' have "snd e = r"
      using entry_unique[OF distinct_load_revisions, of e m r] by auto
    with sub d have "d \<in> applied_revisions m \<union> \<Union>(set (take i new))" by blast
    then show "d \<in> applied_revisions m \<or> (\<exists>j < i. d \<in> new ! j)"
      by (auto simp: in_set_conv_nth)
  qed
  have "(\<exists>!i. i < length (initial @ new) \<and> k \<in> (initial @ new) ! i)
      \<and> (\<forall>i < length (initial @ new). k \<in> (initial @ new) ! i \<longrightarrow>
           (\<forall>d \<in> dependencies r.
              d \<in> applied_revisions m \<or> (\<exists>j < i. d \<in> (initial @ new) ! j)))"
    if kr': "(k, r) \<in> set (load_revisions m)" and un: "k \<notin> applied_revisions m" for k r
  proof (cases include_applied)
    case True
    then have "initial @ new = applied_revisions m # new" by (simp add: initial_def)
    with prepend_layer[OF un, of new "dependencies r"] todo[OF kr' un] show ?thesis
      by presburger
  next
    case False
    then have "initial @ new = new" by (simp add: initial_def)
    with todo[OF kr' un] show ?thesis by simp
  qed
  with ret show ?thesis
    by (intro exI[of _ "initial @ new"]) blast
qed

theorem build_revision_layers_complete_witness:
  "acyclic (dependency_edges (load_revisions migrator_with_a))
   \<and> dependencies_known (load_revisions migrator_with_a) (applied_revisions migrator_with_a)
   \<and> build_revision_layers migrator_with_a True True = Inr [{''A''}, {''B'', ''C''}, {''D''}]
   \<and> (''D'', rev_d) \<in> set (load_revisions migrator_with_a)
   \<and> ''D'' \<notin> applied_revisions migrator_with_a
   \<and> (\<exists>!i. i < length [{''A''}, {''B'', ''C''}, {''D''}]
            \<and> ''D'' \<in> [{''A''}, {''B'', ''C''}, {''D''}] ! i)
   \<and> ''B'' \<in> dependencies rev_d
   \<and> ''B'' \<notin> applied_revisions migrator_with_a
   \<and> (\<exists>j < 2. ''B'' \<in> [{''A''}, {''B'', ''C''}, {''D''}] ! j)"
proof -
  have acyc: "acyclic (dependency_edges (load_revisions migrator_with_a))"
    by code_simp
  have known: "dependencies_known (load_revisions migrator_with_a)
                 (applied_revisions migrator_with_a)"
    by code_simp
  have run: "build_revision_layers migrator_with_a True True
               = Inr [{''A''}, {''B'', ''C''}, {''D''}]"
    by code_simp
  have entry: "(''D'', rev_d) \<in> set (load_revisions migrator_with_a)"
    by code_simp
  have todo: "''D'' \<notin> applied_revisions migrator_with_a"
    by code_simp
  have dep: "''B'' \<in> dependencies rev_d"
    by (simp add: rev_d_def)
  have unapplied: "''B'' \<notin> applied_revisions migrator_with_a"
    by code_simp
  have at: "(2::nat) < length [{''A''}, {''B'', ''C''}, {''D''}]
            \<and> ''D'' \<in> [{''A''}, {''B'', ''C''}, {''D''}] ! 2"
    by simp
  from build_revision_layers_complete[OF acyc known, of True True] run
  have "\<forall>(k, r) \<in> set (load_revisions migrator_with_a). k \<notin> applied_revisions migrator_with_a \<longrightarrow>
          (\<exists>!i. i < length [{''A''}, {''B'', ''C''}, {''D''}]
               \<and> k \<in> [{''A''}, {''B'', ''C''}, {''D''}] ! i)
        \<and> (\<forall>i < length [{''A''}, {''B'', ''C''}, {''D''}].
             k \<in> [{''A''}, {''B'', ''C''}, {''D''}] ! i \<longrightarrow>
             (\<forall>d \<in> dependencies r.
                d \<in> applied_revisions migrator_with_a
                \<or> (\<exists>j < i. d \<in> [{''A''}, {''B'', ''C''}, {''D''}] ! j)))"
    by simp
  with entry todo at dep unapplied
  have "(\<exists>!i. i < length [{''A''}, {''B'', ''C''}, {''D''}]
            \<and> ''D'' \<in> [{''A''}, {''B'', ''C''}, {''D''}] ! i)
        \<and> (\<exists>j < 2. ''B'' \<in> [{''A''}, {''B'', ''C''}, {''D''}] ! j)"
    by blast
  with acyc known run entry todo dep unapplied show ?thesis by blast
qed

end
